theory Spec2Isabelle
  imports Main
begin

section \<open>The key-value store\<close>

text \<open>
  The lock of \<^verbatim>\<open>cache/locker.go\<close> talks to a Redis server through three Lua
  scripts. The server is modelled by the commands those scripts call. An entry of the
  store is the string value of a key together with its time to live in milliseconds,
  when one has been set. A key that has expired is a key that is no longer in the map.
\<close>

type_synonym entry = "string \<times> int option"
type_synonym store = "string \<rightharpoonup> entry"

definition SETNX :: "string \<Rightarrow> string \<Rightarrow> store \<Rightarrow> store \<times> int" where
  "SETNX k v s = (case s k of None \<Rightarrow> (s(k \<mapsto> (v, None)), 1) | Some e \<Rightarrow> (s, 0))"

text \<open>
  \<^verbatim>\<open>PEXPIRE\<close> answers 0 on a missing key. With a time to live that is not positive
  the server deletes the key at once.
\<close>

definition PEXPIRE :: "string \<Rightarrow> int \<Rightarrow> store \<Rightarrow> store \<times> int" where
  "PEXPIRE k ms s =
     (case s k of
        None \<Rightarrow> (s, 0)
      | Some e \<Rightarrow> if ms \<le> 0 then (s(k := None), 1) else (s(k \<mapsto> (fst e, Some ms)), 1))"

definition GET :: "string \<Rightarrow> store \<Rightarrow> string option" where
  "GET k s = map_option fst (s k)"

definition DEL :: "string \<Rightarrow> store \<Rightarrow> store \<times> int" where
  "DEL k s = (case s k of None \<Rightarrow> (s, 0) | Some e \<Rightarrow> (s(k := None), 1))"

subsection \<open>The three Lua scripts\<close>

text \<open>
  Each script is one function on the store: the server runs a script without
  interleaving any other command. The result is the new store and the integer reply.
\<close>

definition acquire_script :: "string \<Rightarrow> string \<Rightarrow> int \<Rightarrow> store \<Rightarrow> store \<times> int" where
  "acquire_script key v ttl s =
     (case SETNX key v s of
        (s1, r) \<Rightarrow> if r = 1 then (fst (PEXPIRE key ttl s1), 1) else (s1, 0))"

definition release_script :: "string \<Rightarrow> string \<Rightarrow> store \<Rightarrow> store \<times> int" where
  "release_script key v s = (if GET key s = Some v then DEL key s else (s, 0))"

definition renew_script :: "string \<Rightarrow> string \<Rightarrow> int \<Rightarrow> store \<Rightarrow> store \<times> int" where
  "renew_script key v ttl s =
     (if GET key s = Some v then (fst (PEXPIRE key ttl s), 1) else (s, 0))"

subsection \<open>One round trip\<close>

text \<open>
  \<^verbatim>\<open>client.Eval(...).Result()\<close> brings back the reply of the script or an error.
  The client sends the command again when the reply to an attempt did not arrive, so
  within one call the script may run more than once, and an error may come back although
  the script ran. What happens to the attempts is decided by the network, so it is an input
  of the model:
  \<^item> \<open>Delivered\<close>: the script runs and its reply comes back;
  \<^item> \<open>Failed\<close>: the call gives up with an error, the script does not run;
  \<^item> \<open>Resent oc\<close>: the script runs, its reply is lost, the command is sent again
    and the rest of the call goes as \<open>oc\<close>.
  How often the client sends again is its configuration, which the callers of this
  package choose; every number of attempts is allowed here.
\<close>

datatype outcome = Delivered | Failed | Resent outcome

datatype store_error = ConnError

fun Eval :: "outcome \<Rightarrow> (store \<Rightarrow> store \<times> int) \<Rightarrow> store \<Rightarrow> store \<times> (store_error + int)" where
  "Eval Delivered script s = (case script s of (s1, r) \<Rightarrow> (s1, Inr r))"
| "Eval Failed script s = (s, Inl ConnError)"
| "Eval (Resent oc) script s = Eval oc script (fst (script s))"

text \<open>Whether the call ends with a reply.\<close>

fun replied :: "outcome \<Rightarrow> bool" where
  "replied Delivered = True"
| "replied Failed = False"
| "replied (Resent oc) = replied oc"

text \<open>The store after the attempts of a call whose replies were lost.\<close>

fun lost_runs :: "outcome \<Rightarrow> (store \<Rightarrow> store \<times> int) \<Rightarrow> store \<Rightarrow> store" where
  "lost_runs Delivered script s = s"
| "lost_runs Failed script s = s"
| "lost_runs (Resent oc) script s = lost_runs oc script (fst (script s))"

section \<open>The lock handle\<close>

text \<open>
  \<^verbatim>\<open>time.Duration\<close> is a signed count of nanoseconds. Go's integer division
  truncates towards zero. The divisors of the source are the constants 2 and
  \<^verbatim>\<open>time.Millisecond\<close>, so no division overflows or divides by zero.
\<close>

definition go_div :: "int \<Rightarrow> int \<Rightarrow> int" where
  "go_div a b = sgn a * sgn b * (\<bar>a\<bar> div \<bar>b\<bar>)"

definition Microsecond :: int where
  "Microsecond = 1000"

definition Millisecond :: int where
  "Millisecond = 1000000"

definition Second :: int where
  "Second = 1000 * Millisecond"

text \<open>
  The fields \<^verbatim>\<open>client\<close> and \<^verbatim>\<open>ctx\<close> are left out: the client is the store
  that every operation takes as an argument, the context is the background context.
  \<^verbatim>\<open>keepAlive\<close> holds the period of the ticker once \<^verbatim>\<open>KeepAlive\<close> has made one.
\<close>

record RedisLock =
  lockName :: string
  timeout :: int
  keepAlive :: "int option"

definition NewRedisLock :: "string \<Rightarrow> int \<Rightarrow> RedisLock" where
  "NewRedisLock name t = \<lparr>lockName = name, timeout = t, keepAlive = None\<rparr>"

datatype error =
    AcquireErr store_error
  | ReleaseErr store_error
  | CouldNotAcquire
  | FnErr string

text \<open>The value every script call of the source passes as \<^verbatim>\<open>ARGV[1]\<close>.\<close>

definition lockValue :: string where
  "lockValue = ''locked''"

text \<open>\<^verbatim>\<open>ttl := int64(r.timeout / time.Millisecond)\<close>\<close>

definition lease_ttl :: "RedisLock \<Rightarrow> int" where
  "lease_ttl r = go_div (timeout r) Millisecond"

definition Acquire :: "RedisLock \<Rightarrow> outcome \<Rightarrow> store \<Rightarrow> store \<times> bool \<times> error option" where
  "Acquire r oc s =
     (case Eval oc (acquire_script (lockName r) lockValue (lease_ttl r)) s of
        (s1, Inl e) \<Rightarrow> (s1, False, Some (AcquireErr e))
      | (s1, Inr result) \<Rightarrow> if result = 1 then (s1, True, None) else (s1, False, None))"

definition Release :: "RedisLock \<Rightarrow> outcome \<Rightarrow> store \<Rightarrow> store \<times> error option" where
  "Release r oc s =
     (case Eval oc (release_script (lockName r) lockValue) s of
        (s1, Inl e) \<Rightarrow> (s1, Some (ReleaseErr e))
      | (s1, Inr result) \<Rightarrow> (s1, None))"

subsection \<open>The renewal goroutine\<close>

text \<open>
  \<^verbatim>\<open>time.NewTicker\<close> panics on a period that is not positive. \<open>None\<close> is the
  panic.
\<close>

definition NewTicker :: "int \<Rightarrow> int option" where
  "NewTicker d = (if d \<le> 0 then None else Some d)"

definition ticker_period :: "RedisLock \<Rightarrow> int" where
  "ticker_period r = go_div (timeout r) 2"

definition KeepAlive_start :: "RedisLock \<Rightarrow> RedisLock option" where
  "KeepAlive_start r =
     (case NewTicker (ticker_period r) of
        None \<Rightarrow> None
      | Some d \<Rightarrow> Some (r\<lparr>keepAlive := Some d\<rparr>))"

text \<open>
  One pass through the loop body, at a tick. The reply of the script is bound to the
  blank identifier; the flag says whether the loop goes on.
\<close>

definition KeepAlive_tick :: "RedisLock \<Rightarrow> outcome \<Rightarrow> store \<Rightarrow> store \<times> (store_error + int) \<times> bool" where
  "KeepAlive_tick r oc s =
     (case Eval oc (renew_script (lockName r) lockValue (lease_ttl r)) s of
        (s1, Inl e) \<Rightarrow> (s1, Inl e, False)
      | (s1, Inr result) \<Rightarrow> (s1, Inr result, True))"

section \<open>Guarded execution as a transition system\<close>

text \<open>
  \<^verbatim>\<open>TryLock\<close> runs \<^verbatim>\<open>fn\<close> on the calling goroutine while \<^verbatim>\<open>KeepAlive\<close> runs
  on a second one, and other callers use the same store. Each call of \<^verbatim>\<open>TryLock\<close> is
  a process with a control point for the caller and one for the renewal goroutine. What
  \<^verbatim>\<open>fn\<close> does is opaque: it returns an error or nil, or it panics, and it does not
  touch the lock's key.
\<close>

text \<open>
  The caller is at \<open>Idle\<close> until \<^verbatim>\<open>Acquire\<close> has returned, at \<open>InFn\<close> while
  \<^verbatim>\<open>fn\<close> runs, at \<open>Deferred res\<close> when \<^verbatim>\<open>fn\<close> is over with \<open>res\<close> and the
  deferred \<^verbatim>\<open>Release\<close> has not returned, at \<open>Done e\<close> when \<^verbatim>\<open>TryLock\<close> has
  returned \<open>e\<close>, and at \<open>Unwound\<close> when the panic of \<^verbatim>\<open>fn\<close> has left
  \<^verbatim>\<open>TryLock\<close>. The renewal goroutine is \<open>Spawned\<close> by the \<^verbatim>\<open>go\<close> statement,
  \<open>Ticking\<close> once it has made its ticker, \<open>Stopped\<close> when it has returned, and
  at \<open>TickerPanic\<close> when \<^verbatim>\<open>NewTicker\<close> panicked.
\<close>

datatype fnres = Returns "error option" | Panics

datatype pc =
    Idle
  | InFn
  | Deferred fnres
  | Done "error option"
  | Unwound

datatype ka = NotStarted | Spawned | Ticking | Stopped | TickerPanic

record proc =
  handle :: RedisLock
  pc :: pc
  ka :: ka

datatype script = AcquireS | RenewS | ReleaseS

record sys =
  store :: store
  procs :: "nat \<Rightarrow> proc"
  evals :: "(nat \<times> script \<times> (store_error + int)) list"

text \<open>
  \<open>evals\<close> is the log of the calls of \<^verbatim>\<open>Eval\<close> that have returned: which process
  called, which script, and what came back. The source keeps no such log; it is there so
  that what a goroutine did to the store can be stated.
\<close>

text \<open>Lines 107 to 116: the acquisition, the two early returns, the spawn.\<close>

definition TryLock_begin :: "RedisLock \<Rightarrow> outcome \<Rightarrow> store \<Rightarrow> store \<times> pc \<times> ka" where
  "TryLock_begin r oc s =
     (case Acquire r oc s of
        (s1, locked, err) \<Rightarrow>
          (case err of
             Some e \<Rightarrow> (s1, Done (Some e), NotStarted)
           | None \<Rightarrow>
               if \<not> locked then (s1, Done (Some CouldNotAcquire), NotStarted)
               else (s1, InFn, Spawned)))"

text \<open>
  Lines 119 to 124: the deferred call of \<^verbatim>\<open>Release\<close>, whose error is dropped,
  then the return of what \<^verbatim>\<open>fn\<close> returned or the panic going on.
\<close>

definition TryLock_end :: "RedisLock \<Rightarrow> outcome \<Rightarrow> fnres \<Rightarrow> store \<Rightarrow> store \<times> pc" where
  "TryLock_end r oc res s =
     (case Release r oc s of
        (s1, err) \<Rightarrow> (s1, case res of Returns e \<Rightarrow> Done e | Panics \<Rightarrow> Unwound))"

text \<open>The reply the caller of \<^verbatim>\<open>Eval\<close> saw, for the log.\<close>

definition reply_of :: "outcome \<Rightarrow> (store \<Rightarrow> store \<times> int) \<Rightarrow> store \<Rightarrow> store_error + int" where
  "reply_of oc script s = snd (Eval oc script s)"

datatype event =
    EvAcquire nat outcome
  | EvKeepAliveStart nat
  | EvTick nat outcome
  | EvFnEnd nat fnres
  | EvRelease nat outcome
  | EvResend nat script
  | EvExpire string

text \<open>
  The script a process runs for each kind of call, and the kind of call each of its two
  goroutines can have under way: the caller an acquisition before \<^verbatim>\<open>Acquire\<close> has
  returned and a release once \<^verbatim>\<open>fn\<close> is over, the renewal goroutine a renewal.
\<close>

definition script_of :: "RedisLock \<Rightarrow> script \<Rightarrow> store \<Rightarrow> store \<times> int" where
  "script_of r sc =
     (case sc of
        AcquireS \<Rightarrow> acquire_script (lockName r) lockValue (lease_ttl r)
      | RenewS \<Rightarrow> renew_script (lockName r) lockValue (lease_ttl r)
      | ReleaseS \<Rightarrow> release_script (lockName r) lockValue)"

definition under_way :: "proc \<Rightarrow> script \<Rightarrow> bool" where
  "under_way pr sc =
     (case sc of
        AcquireS \<Rightarrow> pc pr = Idle \<and> ka pr = NotStarted
      | RenewS \<Rightarrow> ka pr = Ticking
      | ReleaseS \<Rightarrow> (case pc pr of Deferred res \<Rightarrow> ka pr \<noteq> TickerPanic | _ \<Rightarrow> False))"

text \<open>
  One atomic action of one goroutine, or the expiry of a key that has a time to live.
  The calls of \<^verbatim>\<open>Eval\<close> are steps of their own, with every attempt inside them.
  \<open>EvResend\<close> is an attempt of a call under way whose script ran and whose reply was
  lost, taken as a step of its own: the call is still to be sent again, and other processes
  can act before that.
  \<open>None\<close> means that the action cannot happen in this state. There is no clock:
  the schedule says when a tick fires and when a key that has a time to live expires, so
  every timing of the program is among the schedules. A process that has not called
  \<^verbatim>\<open>TryLock\<close>, or whose acquisition is still under way, has no renewal goroutine.
  A panic of the renewal goroutine ends the program of that process, so a process whose
  ticker panicked takes no more steps. A panic of \<^verbatim>\<open>fn\<close> goes on to the caller
  of \<^verbatim>\<open>TryLock\<close> after the deferred \<^verbatim>\<open>Release\<close>; the renewal goroutine is left
  as it is, as when that caller recovers.
\<close>

fun step :: "event \<Rightarrow> sys \<Rightarrow> sys option" where
  "step (EvAcquire p oc) s =
     (let pr = procs s p in
      if pc pr \<noteq> Idle \<or> ka pr \<noteq> NotStarted then None
      else (case TryLock_begin (handle pr) oc (store s) of
              (s1, c, k) \<Rightarrow>
                Some (s\<lparr>store := s1,
                        procs := (procs s)(p := pr\<lparr>pc := c, ka := k\<rparr>),
                        evals := evals s @
                          [(p, AcquireS,
                            reply_of oc (acquire_script (lockName (handle pr)) lockValue
                                           (lease_ttl (handle pr))) (store s))]\<rparr>)))"
| "step (EvKeepAliveStart p) s =
     (let pr = procs s p in
      if ka pr \<noteq> Spawned then None
      else (case KeepAlive_start (handle pr) of
              None \<Rightarrow> Some (s\<lparr>procs := (procs s)(p := pr\<lparr>ka := TickerPanic\<rparr>)\<rparr>)
            | Some r \<Rightarrow> Some (s\<lparr>procs := (procs s)(p := pr\<lparr>handle := r, ka := Ticking\<rparr>)\<rparr>)))"
| "step (EvTick p oc) s =
     (let pr = procs s p in
      if ka pr \<noteq> Ticking then None
      else (case KeepAlive_tick (handle pr) oc (store s) of
              (s1, rep, continue) \<Rightarrow>
                Some (s\<lparr>store := s1,
                        procs := (procs s)(p := pr\<lparr>ka := (if continue then Ticking else Stopped)\<rparr>),
                        evals := evals s @ [(p, RenewS, rep)]\<rparr>)))"
| "step (EvFnEnd p res) s =
     (let pr = procs s p in
      if pc pr \<noteq> InFn \<or> ka pr = TickerPanic then None
      else Some (s\<lparr>procs := (procs s)(p := pr\<lparr>pc := Deferred res\<rparr>)\<rparr>))"
| "step (EvRelease p oc) s =
     (let pr = procs s p in
      (case pc pr of
         Deferred res \<Rightarrow>
           if ka pr = TickerPanic then None
           else (case TryLock_end (handle pr) oc res (store s) of
                   (s1, c) \<Rightarrow>
                     Some (s\<lparr>store := s1,
                             procs := (procs s)(p := pr\<lparr>pc := c\<rparr>),
                             evals := evals s @
                               [(p, ReleaseS,
                                 reply_of oc (release_script (lockName (handle pr)) lockValue)
                                   (store s))]\<rparr>))
       | _ \<Rightarrow> None))"
| "step (EvResend p sc) s =
     (let pr = procs s p in
      if \<not> under_way pr sc then None
      else Some (s\<lparr>store := fst (script_of (handle pr) sc (store s))\<rparr>))"
| "step (EvExpire k) s =
     (case store s k of
        Some (v, Some ms) \<Rightarrow> Some (s\<lparr>store := (store s)(k := None)\<rparr>)
      | _ \<Rightarrow> None)"

fun run :: "event list \<Rightarrow> sys \<Rightarrow> sys option" where
  "run [] s = Some s"
| "run (e # es) s = (case step e s of None \<Rightarrow> None | Some s1 \<Rightarrow> run es s1)"

text \<open>No call has started: every process is about to call \<^verbatim>\<open>TryLock\<close>.\<close>

definition init :: "(nat \<Rightarrow> RedisLock) \<Rightarrow> store \<Rightarrow> sys" where
  "init hs st =
     \<lparr>store = st,
      procs = (\<lambda>p. \<lparr>handle = hs p, pc = Idle, ka = NotStarted\<rparr>),
      evals = []\<rparr>"


section \<open>Invariants and observations\<close>

text \<open>
  A process holds the lock from the successful acquisition until its deferred
  \<^verbatim>\<open>Release\<close> has run.
\<close>

definition holding :: "proc \<Rightarrow> bool" where
  "holding pr = (case pc pr of InFn \<Rightarrow> True | Deferred res \<Rightarrow> True | _ \<Rightarrow> False)"

text \<open>No step changes the name or the lease duration of a handle.\<close>

definition same_config :: "(nat \<Rightarrow> RedisLock) \<Rightarrow> sys \<Rightarrow> bool" where
  "same_config hs s =
     (\<forall>p. lockName (handle (procs s p)) = lockName (hs p)
          \<and> timeout (handle (procs s p)) = timeout (hs p))"

text \<open>
  What holds of the key \<open>k\<close> as long as no lease on it expires: a holder's key is in
  the store, and the key has at most one holder.
\<close>

definition mutex_inv :: "string \<Rightarrow> (nat \<Rightarrow> RedisLock) \<Rightarrow> sys \<Rightarrow> bool" where
  "mutex_inv k hs s =
     (same_config hs s
      \<and> (\<forall>p. pc (procs s p) = Idle \<longrightarrow> ka (procs s p) = NotStarted)
      \<and> (\<forall>p. lockName (hs p) = k \<and> holding (procs s p) \<longrightarrow> store s k \<noteq> None)
      \<and> (\<forall>p q. lockName (hs p) = k \<and> lockName (hs q) = k
            \<and> holding (procs s p) \<and> holding (procs s q) \<longrightarrow> p = q))"

text \<open>
  The setting of the repository's test: every caller builds its handle with
  \<^verbatim>\<open>NewRedisLock(client, "test_lock", 3*time.Second)\<close>, and the store is empty.
\<close>

definition callers :: "string \<Rightarrow> int \<Rightarrow> nat \<Rightarrow> RedisLock" where
  "callers name t p = NewRedisLock name t"

definition start :: sys where
  "start = init (callers ''test_lock'' (3 * Second)) Map.empty"

text \<open>The same callers with a lease of half a millisecond.\<close>

definition start_short :: sys where
  "start_short = init (callers ''test_lock'' (500 * Microsecond)) Map.empty"

text \<open>What can be seen of a process, of a key and of the log after a schedule.\<close>

definition pc_after :: "event list \<Rightarrow> sys \<Rightarrow> nat \<Rightarrow> pc option" where
  "pc_after sched s p = map_option (\<lambda>t. pc (procs t p)) (run sched s)"

definition ka_after :: "event list \<Rightarrow> sys \<Rightarrow> nat \<Rightarrow> ka option" where
  "ka_after sched s p = map_option (\<lambda>t. ka (procs t p)) (run sched s)"

definition store_after :: "event list \<Rightarrow> sys \<Rightarrow> string \<Rightarrow> entry option option" where
  "store_after sched s k = map_option (\<lambda>t. store t k) (run sched s)"

definition evals_after ::
  "event list \<Rightarrow> sys \<Rightarrow> (nat \<times> script \<times> (store_error + int)) list option" where
  "evals_after sched s = map_option evals (run sched s)"

section \<open>Arithmetic of durations\<close>

lemma go_div_pos: "0 \<le> a \<Longrightarrow> 0 < b \<Longrightarrow> go_div a b = a div b"
  by (cases "a = 0") (simp_all add: go_div_def)


lemma lease_ttl_pos: "Millisecond \<le> timeout r \<Longrightarrow> 0 < lease_ttl r"
  by (simp add: lease_ttl_def Millisecond_def go_div_pos pos_imp_zdiv_pos_iff)


lemma lease_ttl_two_seconds: "lease_ttl (NewRedisLock k (2 * Second)) = 2000"
  by (simp add: lease_ttl_def NewRedisLock_def Second_def Millisecond_def go_div_def)

lemma lease_ttl_three_seconds: "lease_ttl (NewRedisLock k (3 * Second)) = 3000"
  by (simp add: lease_ttl_def NewRedisLock_def Second_def Millisecond_def go_div_def)

section \<open>A call with its attempts\<close>

lemma Eval_replied:
  "Eval oc script s =
     (if replied oc
      then (case script (lost_runs oc script s) of (s1, r) \<Rightarrow> (s1, Inr r))
      else (lost_runs oc script s, Inl ConnError))"
  by (induction oc arbitrary: s) simp_all

lemma Eval_error_iff: "(\<exists>e. snd (Eval oc script s) = Inl e) \<longleftrightarrow> \<not> replied oc"
  by (induction oc arbitrary: s) (simp_all split: prod.splits)

lemma Eval_fixed:
  "fst (script s) = s \<Longrightarrow> lost_runs oc script s = s \<and> fst (Eval oc script s) = s"
  by (induction oc) (auto split: prod.splits)

lemma Eval_other_key:
  "(\<And>s. fst (script s) k = s k) \<Longrightarrow> fst (Eval oc script s) k = s k"
  by (induction oc arbitrary: s) (simp_all split: prod.splits, metis fst_conv)

lemma Eval_present:
  "(\<And>s. (fst (script s) k = None) = (s k = None)) \<Longrightarrow>
     (fst (Eval oc script s) k = None) = (s k = None)"
  by (induction oc arbitrary: s) (simp_all split: prod.splits, metis fst_conv)

section \<open>Acquire, Release and the renewal script on a store\<close>

lemma acquire_script_eq:
  "acquire_script k v ttl s =
     (if s k = None then (fst (PEXPIRE k ttl (s(k \<mapsto> (v, None)))), 1) else (s, 0))"
  by (auto simp: acquire_script_def SETNX_def split: option.splits)

lemma PEXPIRE_fresh:
  "0 < ms \<Longrightarrow> fst (PEXPIRE k ms (s(k \<mapsto> (v, None)))) = s(k \<mapsto> (v, Some ms))"
  by (simp add: PEXPIRE_def)

lemma PEXPIRE_at_once:
  "ms \<le> 0 \<Longrightarrow> s k = None \<Longrightarrow> fst (PEXPIRE k ms (s(k \<mapsto> (v, None)))) = s"
  by (auto simp: PEXPIRE_def)

lemma PEXPIRE_present:
  "0 < ms \<Longrightarrow> (fst (PEXPIRE k' ms s) k = None) = (s k = None)"
  by (auto simp: PEXPIRE_def split: option.splits)

lemma PEXPIRE_other_key: "k \<noteq> k' \<Longrightarrow> fst (PEXPIRE k' ms s) k = s k"
  by (auto simp: PEXPIRE_def split: option.splits)

lemma acquire_script_other_key: "k' \<noteq> k \<Longrightarrow> fst (acquire_script k v ttl s) k' = s k'"
  by (simp add: acquire_script_eq PEXPIRE_other_key)

lemma lost_runs_acquire_present:
  "s k \<noteq> None \<Longrightarrow> lost_runs oc (acquire_script k v ttl) s = s"
  by (rule Eval_fixed [THEN conjunct1]) (auto simp: acquire_script_eq)

lemma lost_runs_acquire_absent:
  "s k = None \<Longrightarrow> 0 < ttl \<Longrightarrow>
     lost_runs (Resent oc) (acquire_script k v ttl) s = s(k \<mapsto> (v, Some ttl))"
  by (simp add: acquire_script_eq PEXPIRE_fresh lost_runs_acquire_present)

lemma lost_runs_acquire_at_once:
  "s k = None \<Longrightarrow> ttl \<le> 0 \<Longrightarrow> lost_runs oc (acquire_script k v ttl) s = s"
  by (rule Eval_fixed [THEN conjunct1]) (simp add: acquire_script_eq PEXPIRE_at_once)

lemma Acquire_eq:
  "Acquire r oc s =
     (if \<not> replied oc
      then (lost_runs oc (acquire_script (lockName r) lockValue (lease_ttl r)) s, False,
            Some (AcquireErr ConnError))
      else if lost_runs oc (acquire_script (lockName r) lockValue (lease_ttl r)) s (lockName r)
                = None
      then (fst (PEXPIRE (lockName r) (lease_ttl r)
                  ((lost_runs oc (acquire_script (lockName r) lockValue (lease_ttl r)) s)
                     (lockName r \<mapsto> (lockValue, None)))),
            True, None)
      else (lost_runs oc (acquire_script (lockName r) lockValue (lease_ttl r)) s, False, None))"
  by (simp add: Acquire_def Eval_replied acquire_script_eq)

lemma Acquire_Delivered:
  "Acquire r Delivered s =
     (if s (lockName r) = None
      then (fst (PEXPIRE (lockName r) (lease_ttl r) (s(lockName r \<mapsto> (lockValue, None)))),
            True, None)
      else (s, False, None))"
  by (simp add: Acquire_eq)

lemma Acquire_Failed: "Acquire r Failed s = (s, False, Some (AcquireErr ConnError))"
  by (simp add: Acquire_eq)

lemma Acquire_fresh_store:
  "s (lockName r) = None \<Longrightarrow> 0 < lease_ttl r \<Longrightarrow>
     Acquire r Delivered s = (s(lockName r \<mapsto> (lockValue, Some (lease_ttl r))), True, None)"
  by (simp add: Acquire_Delivered PEXPIRE_fresh)

lemma Acquire_present:
  "s (lockName r) \<noteq> None \<Longrightarrow>
     Acquire r oc s = (s, False, if replied oc then None else Some (AcquireErr ConnError))"
  by (auto simp: Acquire_eq lost_runs_acquire_present)

lemma Acquire_Resent:
  "s (lockName r) = None \<Longrightarrow> 0 < lease_ttl r \<Longrightarrow>
     Acquire r (Resent oc) s =
       (s(lockName r \<mapsto> (lockValue, Some (lease_ttl r))), False,
        if replied oc then None else Some (AcquireErr ConnError))"
  by (simp add: Acquire_eq lost_runs_acquire_absent del: lost_runs.simps)

lemma Acquire_other_key: "k \<noteq> lockName r \<Longrightarrow> fst (Acquire r oc s) k = s k"
proof -
  assume k: "k \<noteq> lockName r"
  have "fst (Acquire r oc s) =
      fst (Eval oc (acquire_script (lockName r) lockValue (lease_ttl r)) s)"
    by (simp add: Acquire_def split: prod.splits sum.splits)
  with k show ?thesis
    by (simp add: Eval_other_key acquire_script_other_key)
qed

lemma Release_eq:
  "Release r oc s =
     (fst (Eval oc (release_script (lockName r) lockValue) s),
      if replied oc then None else Some (ReleaseErr ConnError))"
  by (simp add: Release_def Eval_replied split: prod.splits)

lemma release_script_eq:
  "release_script k v s = (if GET k s = Some v then (s(k := None), 1) else (s, 0))"
  by (auto simp: release_script_def DEL_def GET_def split: option.splits)

lemma Release_Delivered:
  "Release r Delivered s =
     (if GET (lockName r) s = Some lockValue then (s(lockName r := None), None) else (s, None))"
  by (simp add: Release_eq release_script_eq)

lemma Release_Failed: "Release r Failed s = (s, Some (ReleaseErr ConnError))"
  by (simp add: Release_eq)

lemma Release_other_key: "k \<noteq> lockName r \<Longrightarrow> fst (Release r oc s) k = s k"
  by (simp add: Release_eq Eval_other_key release_script_eq)

lemma renew_script_eq:
  "renew_script k v ttl s =
     (if GET k s = Some v then (fst (PEXPIRE k ttl s), 1) else (s, 0))"
  by (simp add: renew_script_def)

lemma KeepAlive_tick_eq:
  "KeepAlive_tick r oc s =
     (fst (Eval oc (renew_script (lockName r) lockValue (lease_ttl r)) s),
      snd (Eval oc (renew_script (lockName r) lockValue (lease_ttl r)) s),
      replied oc)"
  by (simp add: KeepAlive_tick_def Eval_replied split: prod.splits)

lemma KeepAlive_tick_Delivered:
  "KeepAlive_tick r Delivered s =
     (if GET (lockName r) s = Some lockValue
      then (fst (PEXPIRE (lockName r) (lease_ttl r) s), Inr 1, True)
      else (s, Inr 0, True))"
  by (simp add: KeepAlive_tick_def renew_script_def)

lemma KeepAlive_tick_Failed: "KeepAlive_tick r Failed s = (s, Inl ConnError, False)"
  by (simp add: KeepAlive_tick_def)

lemma KeepAlive_tick_present:
  "0 < lease_ttl r \<Longrightarrow> (fst (KeepAlive_tick r oc s) k = None) = (s k = None)"
  by (simp add: KeepAlive_tick_eq Eval_present renew_script_eq PEXPIRE_present)

lemma KeepAlive_tick_other_key: "k \<noteq> lockName r \<Longrightarrow> fst (KeepAlive_tick r oc s) k = s k"
  by (simp add: KeepAlive_tick_eq Eval_other_key renew_script_eq PEXPIRE_other_key)

lemma lease_ttl_cong: "timeout r = timeout r' \<Longrightarrow> lease_ttl r = lease_ttl r'"
  by (simp add: lease_ttl_def)

lemma KeepAlive_start_config:
  "KeepAlive_start r = Some r' \<Longrightarrow> lockName r' = lockName r \<and> timeout r' = timeout r"
  by (auto simp: KeepAlive_start_def split: option.splits)

lemma TryLock_begin_eq:
  "TryLock_begin r oc s =
     (fst (Acquire r oc s),
      if fst (snd (Acquire r oc s)) then InFn
      else Done (Some (if replied oc then CouldNotAcquire else AcquireErr ConnError)),
      if fst (snd (Acquire r oc s)) then Spawned else NotStarted)"
  by (simp add: TryLock_begin_def Acquire_eq)

lemma TryLock_begin_present:
  "s (lockName r) \<noteq> None \<Longrightarrow>
     TryLock_begin r oc s =
       (s, Done (Some (if replied oc then CouldNotAcquire else AcquireErr ConnError)),
        NotStarted)"
  by (simp add: TryLock_begin_eq Acquire_present)

lemma TryLock_begin_cases:
  "TryLock_begin r Delivered s =
     (if s (lockName r) = None
      then (fst (PEXPIRE (lockName r) (lease_ttl r) (s(lockName r \<mapsto> (lockValue, None)))),
            InFn, Spawned)
      else (s, Done (Some CouldNotAcquire), NotStarted))"
  "TryLock_begin r Failed s = (s, Done (Some (AcquireErr ConnError)), NotStarted)"
  by (simp_all add: TryLock_begin_def Acquire_Delivered Acquire_Failed)

lemma acquired_fresh:
  assumes "0 < lease_ttl r" and "fst (snd (Acquire r oc s))"
  shows "oc = Delivered \<and> s (lockName r) = None"
proof (cases oc)
  case Delivered
  with assms show ?thesis
    by (simp add: Acquire_Delivered split: if_splits)
next
  case Failed
  with assms show ?thesis
    by (simp add: Acquire_Failed)
next
  case (Resent oc')
  show ?thesis
  proof (cases "s (lockName r) = None")
    case True
    with assms Resent show ?thesis
      by (simp add: Acquire_Resent)
  next
    case False
    with assms show ?thesis
      by (simp add: Acquire_present)
  qed
qed

lemma TryLock_end_eq:
  "TryLock_end r oc res s =
     (fst (Release r oc s), case res of Returns e \<Rightarrow> Done e | Panics \<Rightarrow> Unwound)"
  by (simp add: TryLock_end_def split: prod.splits)

lemma after_fn_pc [simp]:
  "(case res of Returns e \<Rightarrow> Done e | Panics \<Rightarrow> Unwound) \<noteq> Idle"
  "(case res of Returns e \<Rightarrow> Done e | Panics \<Rightarrow> Unwound) \<noteq> InFn"
  "(case res of Returns e \<Rightarrow> Done e | Panics \<Rightarrow> Unwound) \<noteq> Deferred res'"
  by (cases res; simp)+




text \<open>
  C1. The value written at acquisition is the constant of line 40, so two acquisition
  attempts do not write distinct values. Here a first holder acquires the key
  \<^verbatim>\<open>job:42\<close> and releases it, then a second handle acquires it: both times the
  store holds the same value after the acquisition.
\<close>

theorem Acquire_writes_the_same_value:
  "GET ''job:42'' (fst (Acquire (NewRedisLock ''job:42'' (2 * Second)) Delivered Map.empty))
     = Some ''locked''
   \<and> GET ''job:42''
       (fst (Acquire (NewRedisLock ''job:42'' (3 * Second)) Delivered
          (fst (Release (NewRedisLock ''job:42'' (2 * Second)) Delivered
             (fst (Acquire (NewRedisLock ''job:42'' (2 * Second)) Delivered Map.empty))))))
     = Some ''locked''"
  by (simp add: Acquire_fresh_store Release_Delivered lease_ttl_two_seconds
        lease_ttl_three_seconds GET_def)
     (simp add: NewRedisLock_def lockValue_def GET_def Acquire_fresh_store
        lease_ttl_three_seconds [unfolded NewRedisLock_def])

text \<open>
  C9. For every positive lease duration the period handed to the ticker is the duration
  divided by two as Go divides integers, that is half of it rounded down to a whole
  nanosecond, and it is strictly less than the duration. The ticker itself exists from
  two nanoseconds on; below that \<^verbatim>\<open>NewTicker\<close> panics.
\<close>

theorem ticker_period_half:
  "0 < timeout r \<Longrightarrow>
     ticker_period r = timeout r div 2
     \<and> ticker_period r < timeout r
     \<and> (timeout r = 2 * ticker_period r \<or> timeout r = 2 * ticker_period r + 1)
     \<and> KeepAlive_start r =
         (if 2 \<le> timeout r then Some (r\<lparr>keepAlive := Some (timeout r div 2)\<rparr>) else None)"
  by (auto simp: ticker_period_def go_div_pos KeepAlive_start_def NewTicker_def)

theorem ticker_period_half_witness:
  "0 < timeout (NewRedisLock ''test_lock'' (3 * Second))
   \<and> ticker_period (NewRedisLock ''test_lock'' (3 * Second)) = 1500 * Millisecond
   \<and> ticker_period (NewRedisLock ''test_lock'' (3 * Second))
       < timeout (NewRedisLock ''test_lock'' (3 * Second))"
  using ticker_period_half [of "NewRedisLock ''test_lock'' (3 * Second)"]
  by (simp add: NewRedisLock_def Second_def Millisecond_def)

section \<open>The steps, one event at a time\<close>

lemma step_Acquire_Some:
  "step (EvAcquire p oc) s = Some s1 \<longleftrightarrow>
     pc (procs s p) = Idle \<and> ka (procs s p) = NotStarted \<and>
     s1 = s\<lparr>store := fst (TryLock_begin (handle (procs s p)) oc (store s)),
            procs := (procs s)(p := (procs s p)
               \<lparr>pc := fst (snd (TryLock_begin (handle (procs s p)) oc (store s))),
                ka := snd (snd (TryLock_begin (handle (procs s p)) oc (store s)))\<rparr>),
            evals := evals s @
              [(p, AcquireS,
                reply_of oc (acquire_script (lockName (handle (procs s p))) lockValue
                               (lease_ttl (handle (procs s p)))) (store s))]\<rparr>"
  by (auto simp: Let_def split: prod.splits)

lemma step_KeepAliveStart_Some:
  "step (EvKeepAliveStart p) s = Some s1 \<longleftrightarrow>
     ka (procs s p) = Spawned \<and>
     s1 = s\<lparr>procs := (procs s)(p :=
            (case KeepAlive_start (handle (procs s p)) of
               None \<Rightarrow> (procs s p)\<lparr>ka := TickerPanic\<rparr>
             | Some r \<Rightarrow> (procs s p)\<lparr>handle := r, ka := Ticking\<rparr>))\<rparr>"
  by (auto simp: Let_def split: option.splits)

lemma step_Tick_Some:
  "step (EvTick p oc) s = Some s1 \<longleftrightarrow>
     ka (procs s p) = Ticking \<and>
     s1 = s\<lparr>store := fst (KeepAlive_tick (handle (procs s p)) oc (store s)),
            procs := (procs s)(p := (procs s p)
               \<lparr>ka := (if replied oc then Ticking else Stopped)\<rparr>),
            evals := evals s @
              [(p, RenewS, fst (snd (KeepAlive_tick (handle (procs s p)) oc (store s))))]\<rparr>"
  by (auto simp: Let_def KeepAlive_tick_eq)

lemma step_FnEnd_Some:
  "step (EvFnEnd p res) s = Some s1 \<longleftrightarrow>
     pc (procs s p) = InFn \<and> ka (procs s p) \<noteq> TickerPanic \<and>
     s1 = s\<lparr>procs := (procs s)(p := (procs s p)\<lparr>pc := Deferred res\<rparr>)\<rparr>"
  by (auto simp: Let_def)

lemma step_Release_Some:
  "step (EvRelease p oc) s = Some s1 \<longleftrightarrow>
     (\<exists>res. pc (procs s p) = Deferred res \<and> ka (procs s p) \<noteq> TickerPanic \<and>
        s1 = s\<lparr>store := fst (Release (handle (procs s p)) oc (store s)),
               procs := (procs s)(p := (procs s p)
                  \<lparr>pc := (case res of Returns e \<Rightarrow> Done e | Panics \<Rightarrow> Unwound)\<rparr>),
               evals := evals s @
                 [(p, ReleaseS,
                   reply_of oc (release_script (lockName (handle (procs s p))) lockValue)
                     (store s))]\<rparr>)"
  by (auto simp: Let_def TryLock_end_eq split: pc.splits prod.splits)

lemma under_way_iff:
  "under_way pr sc \<longleftrightarrow>
     sc = AcquireS \<and> pc pr = Idle \<and> ka pr = NotStarted
     \<or> sc = RenewS \<and> ka pr = Ticking
     \<or> sc = ReleaseS \<and> (\<exists>res. pc pr = Deferred res) \<and> ka pr \<noteq> TickerPanic"
  by (auto simp: under_way_def split: script.splits pc.splits)

lemma step_Resend_Some:
  "step (EvResend p sc) s = Some s1 \<longleftrightarrow>
     under_way (procs s p) sc \<and>
     s1 = s\<lparr>store := fst (script_of (handle (procs s p)) sc (store s))\<rparr>"
  by (auto simp: Let_def)

lemma step_Expire_Some:
  "step (EvExpire k) s = Some s1 \<longleftrightarrow>
     (\<exists>v ms. store s k = Some (v, Some ms)) \<and> s1 = s\<lparr>store := (store s)(k := None)\<rparr>"
  by (auto split: option.splits)

lemmas step_Some =
  step_Acquire_Some step_KeepAliveStart_Some step_Tick_Some step_FnEnd_Some
  step_Release_Some step_Resend_Some step_Expire_Some

lemmas script_eval =
  Acquire_def Release_def KeepAlive_tick_def TryLock_begin_def TryLock_end_def
  reply_of_def acquire_script_def release_script_def renew_script_def
  SETNX_def PEXPIRE_def GET_def DEL_def lockValue_def script_of_def under_way_def
  KeepAlive_start_def NewTicker_def ticker_period_def lease_ttl_def go_div_def
  NewRedisLock_def Second_def Millisecond_def Microsecond_def callers_def init_def

lemmas run_eval = step.simps Let_def script_eval

lemmas after_eval =
  pc_after_def ka_after_def store_after_def evals_after_def start_def start_short_def
  run_eval

declare step.simps [simp del]

lemma ka_update_same: "ka pr = k \<Longrightarrow> pr\<lparr>ka := k\<rparr> = pr"
  by simp



section \<open>One holder per key while no lease expires\<close>

lemma holding_simps [simp]:
  "holding (pr\<lparr>pc := InFn\<rparr>)" "holding (pr\<lparr>pc := Deferred res\<rparr>)"
  "\<not> holding (pr\<lparr>pc := Done e\<rparr>)" "\<not> holding (pr\<lparr>pc := Unwound\<rparr>)"
  "\<not> holding (pr\<lparr>pc := Idle\<rparr>)"
  "holding (pr\<lparr>ka := k\<rparr>) = holding pr" "holding (pr\<lparr>handle := h\<rparr>) = holding pr"
  by (simp_all add: holding_def)

lemma holding_after_fn [simp]:
  "\<not> holding (pr\<lparr>pc := (case res of Returns e \<Rightarrow> Done e | Panics \<Rightarrow> Unwound)\<rparr>)"
  by (cases res) simp_all

lemma holding_pc:
  "pc pr = Idle \<Longrightarrow> \<not> holding pr" "pc pr = InFn \<Longrightarrow> holding pr"
  "pc pr = Deferred res \<Longrightarrow> holding pr"
  by (simp_all add: holding_def)

lemma step_same_config:
  "same_config hs s \<Longrightarrow> step e s = Some s1 \<Longrightarrow> same_config hs s1"
  by (cases e)
     (auto simp: step_Some same_config_def dest: KeepAlive_start_config split: option.splits)

lemma step_idle:
  assumes "\<forall>p. pc (procs s p) = Idle \<longrightarrow> ka (procs s p) = NotStarted"
    and "step e s = Some s1"
  shows "\<forall>p. pc (procs s1 p) = Idle \<longrightarrow> ka (procs s1 p) = NotStarted"
proof (cases e)
  case (EvAcquire q oc)
  with assms show ?thesis
    by (auto simp: step_Acquire_Some TryLock_begin_eq)
next
  case (EvRelease q oc)
  with assms show ?thesis
    by (auto simp: step_Release_Some)
qed (use assms in \<open>auto simp: step_Some split: option.splits\<close>)

lemma Acquire_keeps_present: "s k \<noteq> None \<Longrightarrow> fst (Acquire r oc s) k \<noteq> None"
proof (cases "k = lockName r")
  case True
  assume "s k \<noteq> None"
  with True show ?thesis
    by (simp add: Acquire_present)
next
  case False
  assume "s k \<noteq> None"
  with False show ?thesis
    by (simp add: Acquire_other_key)
qed

lemma acquire_script_keeps: "s k' \<noteq> None \<Longrightarrow> fst (acquire_script k v ttl s) k' \<noteq> None"
  by (cases "k' = k") (auto simp: acquire_script_eq PEXPIRE_other_key)

lemma renew_script_keeps:
  "s k' \<noteq> None \<Longrightarrow> k' = k \<longrightarrow> 0 < ttl \<Longrightarrow> fst (renew_script k v ttl s) k' \<noteq> None"
  by (auto simp: renew_script_eq PEXPIRE_def split: option.splits)

lemma release_script_keeps:
  "s k' \<noteq> None \<Longrightarrow> k' \<noteq> k \<Longrightarrow> fst (release_script k v s) k' \<noteq> None"
  by (auto simp: release_script_eq)

lemma script_of_keeps_present:
  assumes "s k \<noteq> None"
    and "lockName r = k \<longrightarrow> sc \<noteq> ReleaseS \<and> 0 < lease_ttl r"
  shows "fst (script_of r sc s) k \<noteq> None"
proof (cases sc)
  case AcquireS
  then have "script_of r sc = acquire_script (lockName r) lockValue (lease_ttl r)"
    by (simp add: script_of_def)
  with assms(1) show ?thesis
    by (simp only: acquire_script_keeps not_False_eq_True)
next
  case RenewS
  then have "script_of r sc = renew_script (lockName r) lockValue (lease_ttl r)"
    by (simp add: script_of_def)
  moreover from assms(2) have "k = lockName r \<longrightarrow> 0 < lease_ttl r"
    by auto
  ultimately show ?thesis
    using assms(1) by (simp only: renew_script_keeps not_False_eq_True)
next
  case ReleaseS
  then have "script_of r sc = release_script (lockName r) lockValue"
    by (simp add: script_of_def)
  moreover from assms(2) ReleaseS have "k \<noteq> lockName r"
    by auto
  ultimately show ?thesis
    using assms(1) by (simp only: release_script_keeps not_False_eq_True)
qed

lemma mutex_inv_step:
  assumes inv: "mutex_inv k hs s"
    and ttl: "\<forall>p. lockName (hs p) = k \<longrightarrow> 0 < lease_ttl (hs p)"
    and st: "step e s = Some s1"
    and ne: "e \<noteq> EvExpire k"
    and nr: "\<forall>p. lockName (hs p) = k \<longrightarrow> e \<noteq> EvResend p ReleaseS"
  shows "mutex_inv k hs s1"
proof -
  from inv have cfg: "\<And>p. lockName (handle (procs s p)) = lockName (hs p)"
      "\<And>p. timeout (handle (procs s p)) = timeout (hs p)"
    and held: "\<And>p. lockName (hs p) = k \<Longrightarrow> holding (procs s p) \<Longrightarrow> store s k \<noteq> None"
    and uniq: "\<And>p q. lockName (hs p) = k \<Longrightarrow> lockName (hs q) = k \<Longrightarrow>
                 holding (procs s p) \<Longrightarrow> holding (procs s q) \<Longrightarrow> p = q"
    by (auto simp: mutex_inv_def same_config_def)
  have ttl': "\<And>p. lease_ttl (handle (procs s p)) = lease_ttl (hs p)"
    by (rule lease_ttl_cong) (rule cfg)
  from inv st have sc: "same_config hs s1"
    by (auto simp: mutex_inv_def intro: step_same_config)
  from inv have "\<forall>p. pc (procs s p) = Idle \<longrightarrow> ka (procs s p) = NotStarted"
    by (simp add: mutex_inv_def)
  then have idle1: "\<forall>p. pc (procs s1 p) = Idle \<longrightarrow> ka (procs s1 p) = NotStarted"
    using st by (rule step_idle)
  have goal: "mutex_inv k hs s1"
    if "\<And>q. lockName (hs q) = k \<Longrightarrow> holding (procs s1 q) \<Longrightarrow> store s1 k \<noteq> None"
      and "\<And>q r. lockName (hs q) = k \<Longrightarrow> lockName (hs r) = k \<Longrightarrow>
             holding (procs s1 q) \<Longrightarrow> holding (procs s1 r) \<Longrightarrow> q = r"
    using sc idle1 that unfolding mutex_inv_def by blast
  have unchanged: "mutex_inv k hs s1"
    if "store s k \<noteq> None \<Longrightarrow> store s1 k \<noteq> None"
      and "\<And>q. holding (procs s1 q) = holding (procs s q)"
    using that held uniq by (intro goal) auto
  show ?thesis
  proof (cases e)
    case (EvAcquire p oc)
    let ?h = "handle (procs s p)"
    let ?got = "fst (snd (Acquire ?h oc (store s)))"
    from EvAcquire st have s1: "store s1 = fst (Acquire ?h oc (store s))"
      and pc1: "holding (procs s1 p) = ?got"
      and other: "\<And>q. q \<noteq> p \<Longrightarrow> procs s1 q = procs s q"
      and np: "\<not> holding (procs s p)"
      by (auto simp: step_Acquire_Some TryLock_begin_eq holding_pc)
    have keep: "store s k \<noteq> None \<Longrightarrow> store s1 k \<noteq> None"
      by (simp add: s1 Acquire_keeps_present)
    show ?thesis
    proof (cases "?got \<and> lockName (hs p) = k")
      case False
      show ?thesis
      proof (rule goal)
        fix q assume q: "lockName (hs q) = k" "holding (procs s1 q)"
        with False pc1 have "q \<noteq> p"
          by auto
        with q other held [of q] keep show "store s1 k \<noteq> None"
          by simp
      next
        fix q r assume "lockName (hs q) = k" "lockName (hs r) = k"
          "holding (procs s1 q)" "holding (procs s1 r)"
        with False pc1 other show "q = r"
          using uniq [of q r] by (cases "q = p"; cases "r = p") auto
      qed
    next
      case True
      with ttl have "0 < lease_ttl ?h"
        by (simp add: ttl')
      from acquired_fresh [OF this] True
      have oc: "oc = Delivered" and absent: "store s k = None"
        by (auto simp: cfg)
      from s1 oc absent True \<open>0 < lease_ttl ?h\<close> have present: "store s1 k \<noteq> None"
        by (simp add: Acquire_fresh_store cfg)
      have nohold: "\<not> holding (procs s q)" if "lockName (hs q) = k" for q
        using held [OF that] absent by auto
      show ?thesis
      proof (rule goal)
        fix q r assume "lockName (hs q) = k" "lockName (hs r) = k"
          "holding (procs s1 q)" "holding (procs s1 r)"
        then show "q = r"
          using other nohold by (cases "q = p"; cases "r = p") auto
      qed (rule present)
    qed
  next
    case (EvKeepAliveStart p)
    with st have "store s1 = store s" "\<And>q. holding (procs s1 q) = holding (procs s q)"
      by (auto simp: step_KeepAliveStart_Some split: option.splits)
    then show ?thesis
      by (intro unchanged) simp_all
  next
    case (EvTick p oc)
    with st have s1: "store s1 = fst (KeepAlive_tick (handle (procs s p)) oc (store s))"
      and h: "\<And>q. holding (procs s1 q) = holding (procs s q)"
      by (auto simp: step_Tick_Some)
    have "(store s1 k = None) = (store s k = None)"
    proof (cases "lockName (hs p) = k")
      case True
      with ttl have "0 < lease_ttl (handle (procs s p))"
        by (simp add: ttl')
      then show ?thesis
        by (simp add: s1 KeepAlive_tick_present)
    next
      case False
      then show ?thesis
        by (simp add: s1 KeepAlive_tick_other_key cfg)
    qed
    with h show ?thesis
      by (intro unchanged) simp_all
  next
    case (EvFnEnd p res)
    with st have "store s1 = store s" and p: "holding (procs s p)" "holding (procs s1 p)"
      and "\<And>q. q \<noteq> p \<Longrightarrow> procs s1 q = procs s q"
      by (auto simp: step_FnEnd_Some holding_pc)
    then have "\<And>q. holding (procs s1 q) = holding (procs s q)"
      by metis
    with \<open>store s1 = store s\<close> show ?thesis
      by (intro unchanged) simp_all
  next
    case (EvRelease p oc)
    with st have s1: "store s1 = fst (Release (handle (procs s p)) oc (store s))"
      and p: "holding (procs s p)" "\<not> holding (procs s1 p)"
      and other: "\<And>q. q \<noteq> p \<Longrightarrow> procs s1 q = procs s q"
      by (auto simp: step_Release_Some holding_pc)
    show ?thesis
    proof (rule goal)
      fix q assume q: "lockName (hs q) = k" "holding (procs s1 q)"
      then have qp: "q \<noteq> p"
        using p by auto
      with q other have hq: "holding (procs s q)"
        by simp
      from uniq [of q p] q hq p qp have "lockName (hs p) \<noteq> k"
        by auto
      then have "store s1 k = store s k"
        by (simp add: s1 Release_other_key cfg)
      with held [OF q(1) hq] show "store s1 k \<noteq> None"
        by simp
    next
      fix q r assume "lockName (hs q) = k" "lockName (hs r) = k"
        "holding (procs s1 q)" "holding (procs s1 r)"
      then show "q = r"
        using p other uniq [of q r] by (cases "q = p"; cases "r = p") auto
    qed
  next
    case (EvResend p sc)
    with st have s1: "store s1 = fst (script_of (handle (procs s p)) sc (store s))"
      and h: "procs s1 = procs s"
      by (auto simp: step_Resend_Some)
    from EvResend nr ttl
    have "lockName (handle (procs s p)) = k \<longrightarrow> sc \<noteq> ReleaseS \<and> 0 < lease_ttl (handle (procs s p))"
      by (auto simp: cfg ttl')
    then have "store s k \<noteq> None \<Longrightarrow> store s1 k \<noteq> None"
      unfolding s1 by (rule script_of_keeps_present [rotated])
    with h show ?thesis
      by (intro unchanged) simp_all
  next
    case (EvExpire k')
    with ne st have "store s1 k = store s k" "procs s1 = procs s"
      by (auto simp: step_Expire_Some)
    then show ?thesis
      by (intro unchanged) simp_all
  qed
qed

lemma mutex_inv_init: "mutex_inv k hs (init hs st)"
  by (simp add: mutex_inv_def same_config_def init_def holding_def)

lemma mutex_inv_run:
  "run sched s = Some s1 \<Longrightarrow> mutex_inv k hs s \<Longrightarrow>
   \<forall>p. lockName (hs p) = k \<longrightarrow> 0 < lease_ttl (hs p) \<Longrightarrow>
   EvExpire k \<notin> set sched \<Longrightarrow>
   \<forall>p. lockName (hs p) = k \<longrightarrow> EvResend p ReleaseS \<notin> set sched \<Longrightarrow>
   mutex_inv k hs s1"
proof (induction sched arbitrary: s)
  case Nil
  then show ?case by simp
next
  case (Cons e es)
  from Cons.prems(1) obtain s' where e: "step e s = Some s'" and es: "run es s' = Some s1"
    by (auto split: option.splits)
  from Cons.prems e have "mutex_inv k hs s'"
    by (intro mutex_inv_step [of k hs s e s']) auto
  with Cons.IH [OF es] Cons.prems show ?case
    by simp
qed

text \<open>
  C2. Take any number of concurrent calls of \<^verbatim>\<open>TryLock\<close>, none of them started yet,
  on any store, and any interleaving of their steps in which the key of process \<open>p\<close>
  does not expire and no release on that key is sent again after its script ran. If the
  callers on that key all have a lease of at least one millisecond and \<open>p\<close> is running
  its \<^verbatim>\<open>fn\<close>, then no other caller \<open>q\<close> on that key is running its \<^verbatim>\<open>fn\<close>.
  And if \<open>q\<close> has not got its answer from \<^verbatim>\<open>Acquire\<close> yet, then whatever happens
  to the attempts of that call, \<open>q\<close> does not run its \<^verbatim>\<open>fn\<close>: \<^verbatim>\<open>TryLock\<close>
  returns \<^verbatim>\<open>could not acquire lock\<close> when a reply arrives and the wrapped store error
  when none does, no renewal goroutine is started, the store is unchanged and \<open>p\<close> is
  still running its \<^verbatim>\<open>fn\<close>.
\<close>

theorem mutual_exclusion_while_no_lease_expires:
  assumes "run sched (init hs st) = Some s"
    and "EvExpire (lockName (hs p)) \<notin> set sched"
    and "\<forall>r. lockName (hs r) = lockName (hs p) \<longrightarrow>
           Millisecond \<le> timeout (hs r) \<and> EvResend r ReleaseS \<notin> set sched"
    and "pc (procs s p) = InFn"
    and "lockName (hs q) = lockName (hs p)"
    and "q \<noteq> p"
  shows "pc (procs s q) \<noteq> InFn
     \<and> (pc (procs s q) = Idle \<longrightarrow>
          (\<exists>s1. step (EvAcquire q oc) s = Some s1
             \<and> pc (procs s1 q) =
                 Done (Some (if replied oc then CouldNotAcquire else AcquireErr ConnError))
             \<and> ka (procs s1 q) = NotStarted
             \<and> store s1 = store s
             \<and> pc (procs s1 p) = InFn))"
proof -
  from assms(3) have ttl: "\<forall>r. lockName (hs r) = lockName (hs p) \<longrightarrow> 0 < lease_ttl (hs r)"
    and nr: "\<forall>r. lockName (hs r) = lockName (hs p) \<longrightarrow> EvResend r ReleaseS \<notin> set sched"
    by (auto intro: lease_ttl_pos)
  have inv: "mutex_inv (lockName (hs p)) hs s"
    using mutex_inv_run [OF assms(1) mutex_inv_init ttl assms(2) nr] .
  then have cfg: "lockName (handle (procs s q)) = lockName (hs q)"
    and held: "store s (lockName (hs p)) \<noteq> None"
    and uniq: "holding (procs s q) \<Longrightarrow> q = p"
    and idle: "pc (procs s q) = Idle \<Longrightarrow> ka (procs s q) = NotStarted"
    using assms(4,5) by (auto simp: mutex_inv_def same_config_def holding_pc)
  from uniq assms(6) have "pc (procs s q) \<noteq> InFn"
    by (auto simp: holding_pc)
  moreover have "\<exists>s1. step (EvAcquire q oc) s = Some s1
             \<and> pc (procs s1 q) =
                 Done (Some (if replied oc then CouldNotAcquire else AcquireErr ConnError))
             \<and> ka (procs s1 q) = NotStarted
             \<and> store s1 = store s
             \<and> pc (procs s1 p) = InFn" if "pc (procs s q) = Idle"
    using that idle held cfg assms(4-6) by (simp add: step_Acquire_Some TryLock_begin_present)
  ultimately show ?thesis
    by blast
qed

theorem mutual_exclusion_while_no_lease_expires_witness:
  "\<exists>s. run [EvAcquire 0 Delivered, EvKeepAliveStart 0, EvTick 0 Delivered] start = Some s
     \<and> EvExpire (lockName (callers ''test_lock'' (3 * Second) 0))
         \<notin> set [EvAcquire 0 Delivered, EvKeepAliveStart 0, EvTick 0 Delivered]
     \<and> EvResend 0 ReleaseS \<notin> set [EvAcquire 0 Delivered, EvKeepAliveStart 0, EvTick 0 Delivered]
     \<and> Millisecond \<le> timeout (callers ''test_lock'' (3 * Second) 1)
     \<and> pc (procs s 0) = InFn
     \<and> pc (procs s 1) = Idle
     \<and> (\<exists>s1. step (EvAcquire 1 Delivered) s = Some s1
            \<and> pc (procs s1 1) = Done (Some CouldNotAcquire)
            \<and> store s1 = store s
            \<and> pc (procs s1 0) = InFn)
     \<and> (\<exists>s1. step (EvAcquire 1 (Resent Failed)) s = Some s1
            \<and> pc (procs s1 1) = Done (Some (AcquireErr ConnError))
            \<and> store s1 = store s
            \<and> pc (procs s1 0) = InFn)"
proof -
  let ?hs = "callers ''test_lock'' (3 * Second)"
  let ?sched = "[EvAcquire 0 Delivered, EvKeepAliveStart 0, EvTick 0 Delivered]"
  have "\<exists>s. run ?sched (init ?hs Map.empty) = Some s \<and> pc (procs s 0) = InFn
          \<and> pc (procs s 1) = Idle"
    by (simp add: run_eval)
  then obtain s where r: "run ?sched (init ?hs Map.empty) = Some s"
    and p0: "pc (procs s 0) = InFn" and p1: "pc (procs s 1) = Idle"
    by blast
  have ne: "EvExpire (lockName (?hs 0)) \<notin> set ?sched"
    by simp
  have ms: "Millisecond \<le> timeout (?hs 1)"
    by (simp add: callers_def NewRedisLock_def Second_def Millisecond_def)
  have nr: "EvResend 0 ReleaseS \<notin> set ?sched"
    by simp
  have ttl: "\<forall>r. lockName (?hs r) = lockName (?hs 0) \<longrightarrow>
               Millisecond \<le> timeout (?hs r) \<and> EvResend r ReleaseS \<notin> set ?sched"
    by (simp add: callers_def NewRedisLock_def Second_def Millisecond_def)
  have k: "lockName (?hs 1) = lockName (?hs 0)"
    by (simp add: callers_def)
  from mutual_exclusion_while_no_lease_expires [OF r ne ttl p0 k, of Delivered] p1
  have 1: "\<exists>s1. step (EvAcquire 1 Delivered) s = Some s1
            \<and> pc (procs s1 1) = Done (Some CouldNotAcquire)
            \<and> store s1 = store s
            \<and> pc (procs s1 0) = InFn"
    by auto
  from mutual_exclusion_while_no_lease_expires [OF r ne ttl p0 k, of "Resent Failed"] p1
  have 2: "\<exists>s1. step (EvAcquire 1 (Resent Failed)) s = Some s1
            \<and> pc (procs s1 1) = Done (Some (AcquireErr ConnError))
            \<and> store s1 = store s
            \<and> pc (procs s1 0) = InFn"
    by auto
  from r have r': "run ?sched start = Some s"
    by (simp only: start_def)
  from r' ne nr ms p0 p1 1 2 show ?thesis
    by blast
qed

text \<open>
  Three runs of calls on \<^verbatim>\<open>test_lock\<close>, each ending with two of them running their
  \<^verbatim>\<open>fn\<close>.
  \<^item> Lease of three seconds. The first call acquires and runs a \<^verbatim>\<open>fn\<close> that takes
    longer than the lease; its first renewal round trip, a second and a half later,
    fails, which ends its renewal loop; after three seconds the key expires; the second
    call acquires.
  \<^item> Lease of half a millisecond, no key expires. The acquisition of the first call sets
    the key with the time to live 0, which deletes it; the second call acquires.
  \<^item> Lease of three seconds, no key expires. The \<^verbatim>\<open>fn\<close> of the first call
    returns; its release runs on the server and deletes the key, but the reply is lost; a
    second call acquires; the release is sent again and deletes the key of the second
    call; a third call acquires.
\<close>

theorem two_fn_in_progress_counterexample:
  "pc_after [EvAcquire 0 Delivered, EvKeepAliveStart 0, EvTick 0 Failed, EvExpire ''test_lock'',
             EvAcquire 1 Delivered, EvKeepAliveStart 1] start 0 = Some InFn
   \<and> pc_after [EvAcquire 0 Delivered, EvKeepAliveStart 0, EvTick 0 Failed, EvExpire ''test_lock'',
             EvAcquire 1 Delivered, EvKeepAliveStart 1] start 1 = Some InFn
   \<and> ka_after [EvAcquire 0 Delivered, EvKeepAliveStart 0, EvTick 0 Failed, EvExpire ''test_lock'',
             EvAcquire 1 Delivered, EvKeepAliveStart 1] start 0 = Some Stopped
   \<and> ka_after [EvAcquire 0 Delivered, EvKeepAliveStart 0, EvTick 0 Failed, EvExpire ''test_lock'',
             EvAcquire 1 Delivered, EvKeepAliveStart 1] start 1 = Some Ticking
   \<and> pc_after [EvAcquire 0 Delivered, EvKeepAliveStart 0, EvAcquire 1 Delivered,
             EvKeepAliveStart 1] start_short 0 = Some InFn
   \<and> pc_after [EvAcquire 0 Delivered, EvKeepAliveStart 0, EvAcquire 1 Delivered,
             EvKeepAliveStart 1] start_short 1 = Some InFn
   \<and> ka_after [EvAcquire 0 Delivered, EvKeepAliveStart 0, EvAcquire 1 Delivered,
             EvKeepAliveStart 1] start_short 0 = Some Ticking
   \<and> pc_after [EvAcquire 0 Delivered, EvKeepAliveStart 0, EvFnEnd 0 (Returns None),
             EvResend 0 ReleaseS, EvAcquire 1 Delivered, EvKeepAliveStart 1,
             EvRelease 0 Delivered, EvAcquire 2 Delivered, EvKeepAliveStart 2] start 1
       = Some InFn
   \<and> pc_after [EvAcquire 0 Delivered, EvKeepAliveStart 0, EvFnEnd 0 (Returns None),
             EvResend 0 ReleaseS, EvAcquire 1 Delivered, EvKeepAliveStart 1,
             EvRelease 0 Delivered, EvAcquire 2 Delivered, EvKeepAliveStart 2] start 2
       = Some InFn
   \<and> ka_after [EvAcquire 0 Delivered, EvKeepAliveStart 0, EvFnEnd 0 (Returns None),
             EvResend 0 ReleaseS, EvAcquire 1 Delivered, EvKeepAliveStart 1,
             EvRelease 0 Delivered, EvAcquire 2 Delivered, EvKeepAliveStart 2] start 1
       = Some Ticking"
  by (simp add: after_eval)

section \<open>The renewal goroutine\<close>

lemma step_ka:
  "ka (procs s1 p) = Ticking"
  if "step e s = Some s1" "ka (procs s p) = Ticking" "\<forall>oc. \<not> replied oc \<longrightarrow> e \<noteq> EvTick p oc"
proof (cases e)
  case (EvTick q oc)
  then show ?thesis
    using that by (auto simp: step_Tick_Some)
qed (use that in \<open>auto simp: step_Some split: option.splits\<close>)

lemma run_ka_Ticking:
  "run sched s = Some s1 \<Longrightarrow> ka (procs s p) = Ticking \<Longrightarrow>
   \<forall>oc. \<not> replied oc \<longrightarrow> EvTick p oc \<notin> set sched \<Longrightarrow>
     ka (procs s1 p) = Ticking"
proof (induction sched arbitrary: s)
  case Nil
  then show ?case by simp
next
  case (Cons e es)
  from Cons.prems(1) obtain s' where e: "step e s = Some s'" and es: "run es s' = Some s1"
    by (auto split: option.splits)
  from e Cons.prems have "ka (procs s' p) = Ticking"
    by (auto intro: step_ka)
  with Cons.IH [OF es] Cons.prems show ?case
    by simp
qed

text \<open>
  C4. Nothing stops the renewal goroutine when the guarded execution returns. A
  goroutine that is ticking stays ticking through every schedule in which none of its own
  renewal round trips ends with an error, so through the return of \<^verbatim>\<open>fn\<close>, the
  deferred \<^verbatim>\<open>Release\<close> and the return of \<^verbatim>\<open>TryLock\<close>; after such a schedule its
  next tick can happen and runs the renewal script against the store.
\<close>

theorem renewal_goes_on_after_TryLock_returns:
  assumes "run sched s = Some s1"
    and "ka (procs s p) = Ticking"
    and "\<forall>oc. \<not> replied oc \<longrightarrow> EvTick p oc \<notin> set sched"
  shows "ka (procs s1 p) = Ticking
     \<and> (\<exists>s2. step (EvTick p oc) s1 = Some s2
           \<and> store s2 = fst (KeepAlive_tick (handle (procs s1 p)) oc (store s1))
           \<and> evals s2 = evals s1 @
               [(p, RenewS, fst (snd (KeepAlive_tick (handle (procs s1 p)) oc (store s1))))])"
proof -
  from assms have "ka (procs s1 p) = Ticking"
    by (rule run_ka_Ticking)
  then show ?thesis
    by (simp add: step_Tick_Some)
qed

theorem renewal_goes_on_after_TryLock_returns_witness:
  "\<exists>s s1. run [EvAcquire 0 Delivered, EvKeepAliveStart 0] start = Some s
     \<and> run [EvFnEnd 0 (Returns None), EvRelease 0 Delivered] s = Some s1
     \<and> ka (procs s 0) = Ticking
     \<and> (\<forall>oc. EvTick 0 oc \<notin> set [EvFnEnd 0 (Returns None), EvRelease 0 Delivered])
     \<and> pc (procs s1 0) = Done None
     \<and> ka (procs s1 0) = Ticking
     \<and> (\<exists>s2. step (EvTick 0 Delivered) s1 = Some s2
            \<and> evals s2 = evals s1 @
                 [(0, RenewS,
                   fst (snd (KeepAlive_tick (handle (procs s1 0)) Delivered (store s1))))])"
proof -
  let ?sched = "[EvFnEnd 0 (Returns None), EvRelease 0 Delivered]"
  have "\<exists>s s1. run [EvAcquire 0 Delivered, EvKeepAliveStart 0] start = Some s
     \<and> run ?sched s = Some s1 \<and> ka (procs s 0) = Ticking \<and> pc (procs s1 0) = Done None"
    by (simp add: start_def run_eval)
  then obtain s s1 where r: "run [EvAcquire 0 Delivered, EvKeepAliveStart 0] start = Some s"
    and r1: "run ?sched s = Some s1" and k: "ka (procs s 0) = Ticking"
    and d: "pc (procs s1 0) = Done None"
    by blast
  have n: "\<forall>oc. EvTick 0 oc \<notin> set ?sched"
    by simp
  then have n': "\<forall>oc. \<not> replied oc \<longrightarrow> EvTick 0 oc \<notin> set ?sched"
    by blast
  from renewal_goes_on_after_TryLock_returns [OF r1 k n', of Delivered] r r1 k n d
  show ?thesis
    by blast
qed

text \<open>
  The first call acquires, runs \<^verbatim>\<open>fn\<close>, releases and returns nil. A second call then
  acquires the key. The goroutine of the first call ticks once more and its renewal
  succeeds, on the key the second call holds.
\<close>

theorem renewal_after_return_counterexample:
  "pc_after [EvAcquire 0 Delivered, EvKeepAliveStart 0, EvFnEnd 0 (Returns None),
             EvRelease 0 Delivered, EvAcquire 1 Delivered, EvTick 0 Delivered] start 0
     = Some (Done None)
   \<and> pc_after [EvAcquire 0 Delivered, EvKeepAliveStart 0, EvFnEnd 0 (Returns None),
             EvRelease 0 Delivered, EvAcquire 1 Delivered, EvTick 0 Delivered] start 1
     = Some InFn
   \<and> evals_after [EvAcquire 0 Delivered, EvKeepAliveStart 0, EvFnEnd 0 (Returns None),
             EvRelease 0 Delivered, EvAcquire 1 Delivered, EvTick 0 Delivered] start
     = Some [(0, AcquireS, Inr 1), (0, ReleaseS, Inr 1), (1, AcquireS, Inr 1), (0, RenewS, Inr 1)]"
  by (simp add: after_eval)

lemma step_ka_Stopped:
  "step e s = Some s1 \<Longrightarrow> ka (procs s p) = Stopped \<Longrightarrow>
     ka (procs s1 p) = Stopped \<and> (\<forall>oc. e \<noteq> EvTick p oc) \<and> e \<noteq> EvResend p RenewS"
  by (cases e) (auto simp: step_Some under_way_iff split: option.splits)

lemma run_ka_Stopped:
  "run sched s = Some s1 \<Longrightarrow> ka (procs s p) = Stopped \<Longrightarrow>
     ka (procs s1 p) = Stopped \<and> (\<forall>oc. EvTick p oc \<notin> set sched)
     \<and> EvResend p RenewS \<notin> set sched"
proof (induction sched arbitrary: s)
  case Nil
  then show ?case by simp
next
  case (Cons e es)
  from Cons.prems(1) obtain s' where e: "step e s = Some s'" and es: "run es s' = Some s1"
    by (auto split: option.splits)
  from step_ka_Stopped [OF e Cons.prems(2)] Cons.IH [OF es] show ?case
    by auto
qed

text \<open>
  C6. A renewal round trip that ends with an error ends the renewal loop, whether or
  not one of its attempts ran the script. The goroutine returns; in whatever happens
  afterwards it stays stopped and no further renewal is attempted for that handle, not
  even a renewal sent again. When the failed round trip had no attempt that reached the
  store, the store is as it was.
\<close>

theorem failed_renewal_ends_the_loop:
  assumes "step (EvTick p oc) s = Some s1"
    and "\<not> replied oc"
    and "run sched s1 = Some s2"
  shows "(oc = Failed \<longrightarrow> store s1 = store s)
     \<and> ka (procs s1 p) = Stopped
     \<and> ka (procs s2 p) = Stopped
     \<and> (\<forall>oc. EvTick p oc \<notin> set sched)
     \<and> EvResend p RenewS \<notin> set sched"
proof -
  from assms(1,2) have "oc = Failed \<longrightarrow> store s1 = store s" "ka (procs s1 p) = Stopped"
    by (auto simp: step_Tick_Some KeepAlive_tick_Failed)
  with run_ka_Stopped [OF assms(3), of p] show ?thesis
    by simp
qed

theorem failed_renewal_ends_the_loop_witness:
  "\<exists>s s1 s2. run [EvAcquire 0 Delivered, EvKeepAliveStart 0] start = Some s
     \<and> step (EvTick 0 Failed) s = Some s1
     \<and> run [EvFnEnd 0 (Returns None), EvRelease 0 Delivered] s1 = Some s2
     \<and> store s1 = store s
     \<and> ka (procs s1 0) = Stopped
     \<and> ka (procs s2 0) = Stopped"
proof -
  have "\<exists>s s1 s2. run [EvAcquire 0 Delivered, EvKeepAliveStart 0] start = Some s
     \<and> step (EvTick 0 Failed) s = Some s1
     \<and> run [EvFnEnd 0 (Returns None), EvRelease 0 Delivered] s1 = Some s2"
    by (simp add: start_def run_eval)
  then obtain s s1 s2 where r: "run [EvAcquire 0 Delivered, EvKeepAliveStart 0] start = Some s"
    and t: "step (EvTick 0 Failed) s = Some s1"
    and r2: "run [EvFnEnd 0 (Returns None), EvRelease 0 Delivered] s1 = Some s2"
    by blast
  have "\<not> replied Failed"
    by simp
  from failed_renewal_ends_the_loop [OF t this r2] r t r2 show ?thesis
    by blast
qed

text \<open>
  The first renewal round trip of a holder fails while its \<^verbatim>\<open>fn\<close> is running and
  the key is still in the store with its lease. The goroutine has returned: a later tick
  cannot happen.
\<close>

theorem renewal_stops_at_first_failure_counterexample:
  "ka_after [EvAcquire 0 Delivered, EvKeepAliveStart 0, EvTick 0 Failed] start 0 = Some Stopped
   \<and> pc_after [EvAcquire 0 Delivered, EvKeepAliveStart 0, EvTick 0 Failed] start 0 = Some InFn
   \<and> store_after [EvAcquire 0 Delivered, EvKeepAliveStart 0, EvTick 0 Failed] start ''test_lock''
       = Some (Some (''locked'', Some 3000))
   \<and> run [EvAcquire 0 Delivered, EvKeepAliveStart 0, EvTick 0 Failed, EvTick 0 Delivered] start
       = None"
  by (simp add: after_eval)

section \<open>What the guarded execution returns\<close>







lemma step_pc_Done:
  assumes "step e s = Some s1" and "pc (procs s p) = Done r"
  shows "pc (procs s1 p) = Done r \<and> (\<forall>res. e \<noteq> EvFnEnd p res) \<and> (\<forall>oc. e \<noteq> EvRelease p oc)"
  using assms by (cases e) (auto simp: step_Some split: option.splits)

lemma run_pc_Done:
  "run sched s = Some s1 \<Longrightarrow> pc (procs s p) = Done r \<Longrightarrow>
     pc (procs s1 p) = Done r \<and> (\<forall>res. EvFnEnd p res \<notin> set sched)"
proof (induction sched arbitrary: s)
  case Nil
  then show ?case by simp
next
  case (Cons e es)
  from Cons.prems(1) obtain s' where e: "step e s = Some s'" and es: "run es s' = Some s1"
    by (auto split: option.splits)
  from step_pc_Done [OF e Cons.prems(2)] Cons.IH [OF es] show ?case
    by auto
qed

lemma step_pc_Unwound:
  assumes "step e s = Some s1" and "pc (procs s p) = Unwound"
  shows "pc (procs s1 p) = Unwound"
  using assms by (cases e) (auto simp: step_Some split: option.splits)

lemma run_pc_Unwound:
  "run sched s = Some s1 \<Longrightarrow> pc (procs s p) = Unwound \<Longrightarrow> pc (procs s1 p) = Unwound"
proof (induction sched arbitrary: s)
  case Nil
  then show ?case by simp
next
  case (Cons e es)
  from Cons.prems(1) obtain s' where e: "step e s = Some s'" and es: "run es s' = Some s1"
    by (auto split: option.splits)
  from step_pc_Unwound [OF e Cons.prems(2)] Cons.IH [OF es] show ?case
    by auto
qed

lemma step_pc_Deferred:
  assumes "step e s = Some s1" and "pc (procs s p) = Deferred res"
  shows "(\<forall>res'. e \<noteq> EvFnEnd p res') \<and>
     (if \<exists>oc. e = EvRelease p oc
      then pc (procs s1 p) = (case res of Returns r \<Rightarrow> Done r | Panics \<Rightarrow> Unwound)
      else pc (procs s1 p) = Deferred res)"
  using assms by (cases e) (auto simp: step_Some split: option.splits)

lemma run_pc_Deferred:
  "run sched s = Some s1 \<Longrightarrow> pc (procs s p) = Deferred res \<Longrightarrow> pc (procs s1 p) = Done r \<Longrightarrow>
     res = Returns r \<and> (\<forall>res'. EvFnEnd p res' \<notin> set sched) \<and> (\<exists>oc. EvRelease p oc \<in> set sched)"
proof (induction sched arbitrary: s)
  case Nil
  then show ?case by simp
next
  case (Cons e es)
  from Cons.prems(1) obtain s' where e: "step e s = Some s'" and es: "run es s' = Some s1"
    by (auto split: option.splits)
  note d = step_pc_Deferred [OF e Cons.prems(2)]
  show ?case
  proof (cases "\<exists>oc. e = EvRelease p oc")
    case True
    with d have pc': "pc (procs s' p) = (case res of Returns r \<Rightarrow> Done r | Panics \<Rightarrow> Unwound)"
      by simp
    show ?thesis
    proof (cases res)
      case (Returns r')
      with pc' run_pc_Done [OF es, of p r'] Cons.prems(3) True d show ?thesis
        by auto
    next
      case Panics
      with pc' run_pc_Unwound [OF es, of p] Cons.prems(3) show ?thesis
        by simp
    qed
  next
    case False
    with d have "pc (procs s' p) = Deferred res"
      by simp
    from Cons.IH [OF es this Cons.prems(3)] d show ?thesis
      by auto
  qed
qed

lemma step_pc_InFn:
  assumes "step e s = Some s1" and "pc (procs s p) = InFn"
  shows "(\<forall>oc. e \<noteq> EvRelease p oc) \<and>
     (case e of EvFnEnd q res \<Rightarrow> if q = p then pc (procs s1 p) = Deferred res
                                 else pc (procs s1 p) = InFn
      | _ \<Rightarrow> pc (procs s1 p) = InFn)"
  using assms by (cases e) (auto simp: step_Some split: option.splits)

lemma run_from_InFn:
  "run sched s = Some s1 \<Longrightarrow> pc (procs s p) = InFn \<Longrightarrow> pc (procs s1 p) = Done r \<Longrightarrow>
     EvFnEnd p (Returns r) \<in> set sched
     \<and> (\<forall>res. EvFnEnd p res \<in> set sched \<longrightarrow> res = Returns r)
     \<and> (\<exists>oc. EvRelease p oc \<in> set sched)"
proof (induction sched arbitrary: s)
  case Nil
  then show ?case by simp
next
  case (Cons e es)
  from Cons.prems(1) obtain s' where e: "step e s = Some s'" and es: "run es s' = Some s1"
    by (auto split: option.splits)
  note d = step_pc_InFn [OF e Cons.prems(2)]
  show ?case
  proof (cases "\<exists>res. e = EvFnEnd p res")
    case True
    then obtain res where ev: "e = EvFnEnd p res"
      by blast
    with d have "pc (procs s' p) = Deferred res"
      by simp
    from run_pc_Deferred [OF es this Cons.prems(3)] ev show ?thesis
      by auto
  next
    case False
    with d have "pc (procs s' p) = InFn"
      by (cases e) (auto split: if_splits)
    from Cons.IH [OF es this Cons.prems(3)] False d show ?thesis
      by auto
  qed
qed

lemma fn_return_then_release:
  assumes "pc (procs s p) = InFn" and "ka (procs s p) \<noteq> TickerPanic"
  shows "\<exists>s2. run [EvFnEnd p res, EvRelease p oc] s = Some s2
           \<and> pc (procs s2 p) = (case res of Returns e \<Rightarrow> Done e | Panics \<Rightarrow> Unwound)"
  using assms by (simp add: step.simps Let_def TryLock_end_eq)

text \<open>
  C8. Let \<^verbatim>\<open>fn\<close> be in progress, that is, the acquisition has succeeded. When
  \<^verbatim>\<open>fn\<close> returns \<open>e\<close> (an error or nil) the deferred \<^verbatim>\<open>Release\<close> runs and
  \<^verbatim>\<open>TryLock\<close> returns \<open>e\<close>, whether the release round trip was delivered or failed.
  And through any interleaving with other goroutines: whenever \<^verbatim>\<open>TryLock\<close> has
  returned \<open>r\<close>, then \<^verbatim>\<open>fn\<close> returned exactly once, it returned \<open>r\<close>, and a
  \<^verbatim>\<open>Release\<close> was attempted. The error of \<^verbatim>\<open>Release\<close> is never what is returned.
\<close>

theorem TryLock_returns_what_fn_returned:
  assumes "pc (procs s p) = InFn"
  shows "(ka (procs s p) \<noteq> TickerPanic \<longrightarrow>
            (\<exists>s2. run [EvFnEnd p (Returns e), EvRelease p oc] s = Some s2
               \<and> pc (procs s2 p) = Done e))
     \<and> (\<forall>sched s1 r. run sched s = Some s1 \<and> pc (procs s1 p) = Done r \<longrightarrow>
            EvFnEnd p (Returns r) \<in> set sched
            \<and> (\<forall>res. EvFnEnd p res \<in> set sched \<longrightarrow> res = Returns r)
            \<and> (\<exists>oc. EvRelease p oc \<in> set sched))
     \<and> snd (TryLock_end h oc (Returns e) st) = Done e"
proof -
  have "\<exists>s2. run [EvFnEnd p (Returns e), EvRelease p oc] s = Some s2
               \<and> pc (procs s2 p) = Done e" if "ka (procs s p) \<noteq> TickerPanic"
    using fn_return_then_release [OF assms that, of "Returns e" oc] by simp
  moreover have "EvFnEnd p (Returns r) \<in> set sched
            \<and> (\<forall>res. EvFnEnd p res \<in> set sched \<longrightarrow> res = Returns r)
            \<and> (\<exists>oc. EvRelease p oc \<in> set sched)"
    if "run sched s = Some s1" "pc (procs s1 p) = Done r" for sched s1 r
    using run_from_InFn [OF that(1) assms that(2)] .
  ultimately show ?thesis
    by (simp add: TryLock_end_eq) blast
qed

theorem TryLock_returns_what_fn_returned_witness:
  "\<exists>s s1. run [EvAcquire 0 Delivered] start = Some s
     \<and> pc (procs s 0) = InFn
     \<and> ka (procs s 0) \<noteq> TickerPanic
     \<and> run [EvFnEnd 0 (Returns (Some (FnErr ''boom''))), EvRelease 0 Failed] s = Some s1
     \<and> pc (procs s1 0) = Done (Some (FnErr ''boom''))"
proof -
  have "\<exists>s. run [EvAcquire 0 Delivered] start = Some s
     \<and> pc (procs s 0) = InFn \<and> ka (procs s 0) \<noteq> TickerPanic"
    by (simp add: start_def run_eval)
  then obtain s where r: "run [EvAcquire 0 Delivered] start = Some s"
    and i: "pc (procs s 0) = InFn" and k: "ka (procs s 0) \<noteq> TickerPanic"
    by blast
  from TryLock_returns_what_fn_returned [OF i, of "Some (FnErr ''boom'')" Failed] k
  have "\<exists>s1. run [EvFnEnd 0 (Returns (Some (FnErr ''boom''))), EvRelease 0 Failed] s = Some s1
     \<and> pc (procs s1 0) = Done (Some (FnErr ''boom''))"
    by blast
  with r i k show ?thesis
    by blast
qed

text \<open>
  C5. A renewal that finds the stored value no longer matching is not reported to
  anyone. The reply 0 of the script is dropped: that step changes neither the store nor
  any process, the renewal loop goes on ticking, and if \<^verbatim>\<open>fn\<close> was in progress then
  whatever \<^verbatim>\<open>TryLock\<close> returns later is what \<^verbatim>\<open>fn\<close> returned. Only the log of round
  trips kept by this model records the reply.
\<close>

theorem lost_lease_is_not_reported:
  assumes "ka (procs s p) = Ticking"
    and "GET (lockName (handle (procs s p))) (store s) \<noteq> Some lockValue"
  shows "step (EvTick p Delivered) s = Some (s\<lparr>evals := evals s @ [(p, RenewS, Inr 0)]\<rparr>)
     \<and> (\<forall>sched s1 r. pc (procs s p) = InFn \<and> run (EvTick p Delivered # sched) s = Some s1
            \<and> pc (procs s1 p) = Done r \<longrightarrow> EvFnEnd p (Returns r) \<in> set sched)"
proof -
  have t: "step (EvTick p Delivered) s = Some (s\<lparr>evals := evals s @ [(p, RenewS, Inr 0)]\<rparr>)"
    using assms by (simp add: step_Tick_Some KeepAlive_tick_Delivered ka_update_same)
  have "EvFnEnd p (Returns r) \<in> set sched"
    if "pc (procs s p) = InFn" "run (EvTick p Delivered # sched) s = Some s1"
      "pc (procs s1 p) = Done r" for sched s1 r
    using run_from_InFn [OF that(2,1,3)] by auto
  with t show ?thesis
    by blast
qed

theorem lost_lease_is_not_reported_witness:
  "\<exists>s. run [EvAcquire 0 Delivered, EvKeepAliveStart 0, EvExpire ''test_lock''] start = Some s
     \<and> ka (procs s 0) = Ticking
     \<and> GET (lockName (handle (procs s 0))) (store s) \<noteq> Some lockValue
     \<and> step (EvTick 0 Delivered) s = Some (s\<lparr>evals := evals s @ [(0, RenewS, Inr 0)]\<rparr>)"
proof -
  have "\<exists>s. run [EvAcquire 0 Delivered, EvKeepAliveStart 0, EvExpire ''test_lock''] start = Some s
     \<and> ka (procs s 0) = Ticking
     \<and> GET (lockName (handle (procs s 0))) (store s) \<noteq> Some lockValue"
    by (simp add: start_def run_eval)
  then obtain s where
    r: "run [EvAcquire 0 Delivered, EvKeepAliveStart 0, EvExpire ''test_lock''] start = Some s"
    and k: "ka (procs s 0) = Ticking"
    and g: "GET (lockName (handle (procs s 0))) (store s) \<noteq> Some lockValue"
    by blast
  from lost_lease_is_not_reported [OF k g]
  have "step (EvTick 0 Delivered) s = Some (s\<lparr>evals := evals s @ [(0, RenewS, Inr 0)]\<rparr>)"
    by blast
  with r k g show ?thesis
    by blast
qed

text \<open>
  A holder renews once, then its key expires. Its next renewal is answered 0: the
  stored value no longer matches. \<^verbatim>\<open>fn\<close> returns nil, the release finds nothing to
  delete, and \<^verbatim>\<open>TryLock\<close> returns nil.
\<close>

theorem lost_lease_swallowed_counterexample:
  "evals_after [EvAcquire 0 Delivered, EvKeepAliveStart 0, EvTick 0 Delivered,
                EvExpire ''test_lock'', EvTick 0 Delivered, EvFnEnd 0 (Returns None),
                EvRelease 0 Delivered] start
     = Some [(0, AcquireS, Inr 1), (0, RenewS, Inr 1), (0, RenewS, Inr 0), (0, ReleaseS, Inr 0)]
   \<and> pc_after [EvAcquire 0 Delivered, EvKeepAliveStart 0, EvTick 0 Delivered,
                EvExpire ''test_lock'', EvTick 0 Delivered, EvFnEnd 0 (Returns None),
                EvRelease 0 Delivered] start 0
     = Some (Done None)"
  by (simp add: after_eval)

section \<open>Release and the next holder\<close>

text \<open>
  C7. The first call acquires \<^verbatim>\<open>test_lock\<close>; its renewal loop ends on a failed round
  trip and the key expires while its \<^verbatim>\<open>fn\<close> is still running. A second call acquires
  the key, which now holds the second holder's value with a fresh lease. When the
  \<^verbatim>\<open>fn\<close> of the first call returns, its \<^verbatim>\<open>Release\<close> is answered 1 and the key is
  gone, while the second call is running its \<^verbatim>\<open>fn\<close>.
\<close>

theorem Release_deletes_the_next_holders_key:
  "store_after [EvAcquire 0 Delivered, EvKeepAliveStart 0, EvTick 0 Failed,
                EvExpire ''test_lock'', EvAcquire 1 Delivered] start ''test_lock''
     = Some (Some (''locked'', Some 3000))
   \<and> store_after [EvAcquire 0 Delivered, EvKeepAliveStart 0, EvTick 0 Failed,
                EvExpire ''test_lock'', EvAcquire 1 Delivered, EvFnEnd 0 (Returns None),
                EvRelease 0 Delivered] start ''test_lock''
     = Some None
   \<and> pc_after [EvAcquire 0 Delivered, EvKeepAliveStart 0, EvTick 0 Failed,
                EvExpire ''test_lock'', EvAcquire 1 Delivered, EvFnEnd 0 (Returns None),
                EvRelease 0 Delivered] start 1
     = Some InFn
   \<and> evals_after [EvAcquire 0 Delivered, EvKeepAliveStart 0, EvTick 0 Failed,
                EvExpire ''test_lock'', EvAcquire 1 Delivered, EvFnEnd 0 (Returns None),
                EvRelease 0 Delivered] start
     = Some [(0, AcquireS, Inr 1), (0, RenewS, Inl ConnError), (1, AcquireS, Inr 1),
             (0, ReleaseS, Inr 1)]"
  by (simp add: after_eval)

end
